theory Spec2Isabelle
  imports Main
begin

section \<open>Values, keys and objects\<close>

text \<open>
  Keys of the store are what \<open>isRecordKey\<close> accepts: strings, numbers and symbols.
  Numbers are integers here; a symbol is identified by a number.
\<close>

datatype key = KStr string | KNum int | KSym nat

text \<open>
  A value is a primitive, an ordinary object, a function object, or one of the built-in
  objects every ordinary object inherits from: \<open>Object.prototype\<close> itself and the
  functions it holds (\<open>Builtin n\<close> is \<open>Object.prototype[n]\<close>). An ordinary object carries its
  identity (the reference) and its own properties in enumeration order; two occurrences
  of the same identity are the same object. A function object is known by its identity
  only: what it returns when called, and what its properties are, belongs to the
  environment of the store.
\<close>

datatype val =
    Undefined
  | Null
  | Bool bool
  | Num int
  | NaN
  | Str string
  | Obj nat "(key \<times> val) list"
  | Function nat
  | Builtin string
  | ObjectPrototype

type_synonym fields = "(key \<times> val) list"
type_synonym obj = "nat \<times> fields"

datatype error = TypeError

text \<open>The operator \<open>===\<close>: identity on objects, value equality on primitives, never on NaN.\<close>

fun strict_eq :: "val \<Rightarrow> val \<Rightarrow> bool" where
  "strict_eq NaN _ = False"
| "strict_eq _ NaN = False"
| "strict_eq (Obj i _) (Obj j _) = (i = j)"
| "strict_eq a b = (a = b)"

fun is_function :: "val \<Rightarrow> bool" where
  "is_function (Function _) = True"
| "is_function (Builtin _) = True"
| "is_function _ = False"

fun is_object :: "val \<Rightarrow> bool" where
  "is_object (Obj _ _) = True"
| "is_object (Function _) = True"
| "is_object (Builtin _) = True"
| "is_object ObjectPrototype = True"
| "is_object _ = False"

subsection \<open>Property keys\<close>

fun digit_char :: "nat \<Rightarrow> char" where
  "digit_char n = char_of (48 + n)"

fun show_nat :: "nat \<Rightarrow> string" where
  "show_nat n = (if n < 10 then [digit_char n] else show_nat (n div 10) @ [digit_char (n mod 10)])"

definition show_int :: "int \<Rightarrow> string" where
  "show_int i = (if i < 0 then CHR ''-'' # show_nat (nat (- i)) else show_nat (nat i))"

text \<open>A number used as a property key is its decimal string; strings and symbols are kept.\<close>

fun ToPropertyKey :: "key \<Rightarrow> key" where
  "ToPropertyKey (KNum i) = KStr (show_int i)"
| "ToPropertyKey k = k"

subsection \<open>Inherited properties\<close>

text \<open>
  The store creates its state object as \<open>{}\<close>, an ordinary object whose prototype is
  \<open>Object.prototype\<close>. Reading a name the object does not own goes on to the prototype.
  \<open>Object.prototype\<close> holds the functions named below, and the accessor \<open>__proto__\<close>, whose
  getter returns the prototype of the object that is read and whose setter replaces it.
\<close>

definition proto_key :: key where
  "proto_key = KStr ''__proto__''"

definition Object_prototype_names :: "string list" where
  "Object_prototype_names =
     [''constructor'', ''__defineGetter__'', ''__defineSetter__'', ''hasOwnProperty'',
      ''__lookupGetter__'', ''__lookupSetter__'', ''isPrototypeOf'', ''propertyIsEnumerable'',
      ''toString'', ''valueOf'', ''toLocaleString'']"

fun Object_prototype_member :: "key \<Rightarrow> val" where
  "Object_prototype_member (KStr n) =
     (if n \<in> set Object_prototype_names then Builtin n else Undefined)"
| "Object_prototype_member _ = Undefined"

text \<open>What an ordinary object, with prototype \<open>Object.prototype\<close>, inherits under a name.\<close>

definition Object_prototype_get :: "key \<Rightarrow> val" where
  "Object_prototype_get k =
     (if k = proto_key then ObjectPrototype else Object_prototype_member k)"

text \<open>
  What an object whose prototype is \<open>p\<close> inherits under the name \<open>k\<close>. The prototype is
  \<open>Object.prototype\<close>, or what a write to \<open>__proto__\<close> has put in its place: \<open>null\<close>, an
  ordinary object (itself with prototype \<open>Object.prototype\<close>), or a function object,
  whose properties \<open>fp\<close> the environment gives.
\<close>

fun inherited :: "(val \<Rightarrow> key \<Rightarrow> val) \<Rightarrow> val \<Rightarrow> key \<Rightarrow> val" where
  "inherited fp ObjectPrototype k = Object_prototype_get k"
| "inherited fp (Obj i pfs) k =
     (case map_of pfs k of
        Some v \<Rightarrow> v
      | None \<Rightarrow> if k = proto_key then Obj i pfs else Object_prototype_member k)"
| "inherited fp (Function i) k = (if k = proto_key then Function i else fp (Function i) k)"
| "inherited fp (Builtin n) k = (if k = proto_key then Builtin n else fp (Builtin n) k)"
| "inherited fp _ k = Undefined"

text \<open>Reading \<open>o[k]\<close> on an object with own properties \<open>fs\<close> and prototype \<open>p\<close>.\<close>

definition obj_read :: "(val \<Rightarrow> key \<Rightarrow> val) \<Rightarrow> fields \<Rightarrow> val \<Rightarrow> key \<Rightarrow> val" where
  "obj_read fp fs p k =
     (case map_of fs (ToPropertyKey k) of
        Some v \<Rightarrow> v
      | None \<Rightarrow> inherited fp p (ToPropertyKey k))"


text \<open>Defining an own property: an existing one keeps its place, a new one goes last.\<close>

fun assign :: "fields \<Rightarrow> key \<Rightarrow> val \<Rightarrow> fields" where
  "assign [] k v = [(k, v)]"
| "assign ((k', v') # fs) k v = (if k' = k then (k, v) # fs else (k', v') # assign fs k v)"

text \<open>Whether an object with prototype \<open>p\<close>, and no own \<open>__proto__\<close>, reaches the
  \<open>__proto__\<close> accessor of \<open>Object.prototype\<close>.\<close>

fun setter_reachable :: "val \<Rightarrow> bool" where
  "setter_reachable ObjectPrototype = True"
| "setter_reachable (Obj i pfs) = (map_of pfs proto_key = None)"
| "setter_reachable (Function i) = True"
| "setter_reachable (Builtin n) = True"
| "setter_reachable _ = False"

text \<open>
  Writing \<open>o[k] = v\<close> on an object with own properties \<open>fs\<close> and prototype \<open>p\<close>; the result
  is the new own properties and the new prototype. The write defines an own property,
  except when \<open>k\<close> is \<open>__proto__\<close> and the accessor is reached: then no property is
  created, and the prototype becomes \<open>v\<close> if \<open>v\<close> is an object or \<open>null\<close>.
\<close>

definition obj_write :: "fields \<Rightarrow> val \<Rightarrow> key \<Rightarrow> val \<Rightarrow> fields \<times> val" where
  "obj_write fs p k v =
     (if ToPropertyKey k = proto_key \<and> map_of fs proto_key = None \<and> setter_reachable p
      then (fs, if is_object v \<or> v = Null then v else p)
      else (assign fs (ToPropertyKey k) v, p))"

text \<open>\<open>delete o[k]\<close> on an ordinary object removes the own property and evaluates to true,
  whether or not the property existed.\<close>

definition prop_delete :: "fields \<Rightarrow> key \<Rightarrow> bool \<times> fields" where
  "prop_delete fs k = (True, filter (\<lambda>p. fst p \<noteq> ToPropertyKey k) fs)"

text \<open>\<open>Object.keys\<close> lists the string-named properties only.\<close>

fun is_string_key :: "key \<Rightarrow> bool" where
  "is_string_key (KStr _) = True"
| "is_string_key _ = False"

definition Object_keys :: "(key \<times> 'a) list \<Rightarrow> key list" where
  "Object_keys fs = filter is_string_key (map fst fs)"

text \<open>The object spread \<open>{...a, ...b}\<close>: the properties of \<open>a\<close>, overwritten or extended by
  those of \<open>b\<close>, each defined as an own property.\<close>

definition spread :: "fields \<Rightarrow> fields \<Rightarrow> fields" where
  "spread a b = fold (\<lambda>p r. assign r (fst p) (snd p)) b a"

subsection \<open>Identities and deep equality\<close>

text \<open>The identities of all ordinary objects inside a value.\<close>

fun ids :: "val \<Rightarrow> nat set" and ids_fields :: "fields \<Rightarrow> nat set" where
  "ids (Obj i fs) = insert i (ids_fields fs)"
| "ids Undefined = {}"
| "ids Null = {}"
| "ids (Bool _) = {}"
| "ids (Num _) = {}"
| "ids NaN = {}"
| "ids (Str _) = {}"
| "ids (Function _) = {}"
| "ids (Builtin _) = {}"
| "ids ObjectPrototype = {}"
| "ids_fields [] = {}"
| "ids_fields (p # fs) = ids (snd p) \<union> ids_fields fs"

text \<open>The least number above every identity inside a value.\<close>

fun top_id :: "val \<Rightarrow> nat" and top_fields :: "fields \<Rightarrow> nat" where
  "top_id (Obj i fs) = max (Suc i) (top_fields fs)"
| "top_id Undefined = 0"
| "top_id Null = 0"
| "top_id (Bool _) = 0"
| "top_id (Num _) = 0"
| "top_id NaN = 0"
| "top_id (Str _) = 0"
| "top_id (Function _) = 0"
| "top_id (Builtin _) = 0"
| "top_id ObjectPrototype = 0"
| "top_fields [] = 0"
| "top_fields (p # fs) = max (top_id (snd p)) (top_fields fs)"

text \<open>Structural (deep) equality: the same shape, primitives and functions, the identities
  of ordinary objects ignored. \<open>Object.prototype\<close> has no enumerable property of its own
  and counts as an empty object.\<close>

fun erase :: "val \<Rightarrow> val" and erase_fields :: "fields \<Rightarrow> fields" where
  "erase (Obj i fs) = Obj 0 (erase_fields fs)"
| "erase Undefined = Undefined"
| "erase Null = Null"
| "erase (Bool b) = Bool b"
| "erase (Num n) = Num n"
| "erase NaN = NaN"
| "erase (Str s) = Str s"
| "erase (Function i) = Function i"
| "erase (Builtin n) = Builtin n"
| "erase ObjectPrototype = Obj 0 []"
| "erase_fields [] = []"
| "erase_fields (p # fs) = (fst p, erase (snd p)) # erase_fields fs"

definition deep_eq :: "val \<Rightarrow> val \<Rightarrow> bool" where
  "deep_eq a b = (erase a = erase b)"

text \<open>
  Modelled from the spec: \<open>clone\<close> of \<open>./Utils\<close>, which is not among the sources. Given
  any value it returns a structurally equal value that shares no mutable reference with
  the input, recursing through nested containers. Every ordinary object of the input is
  copied to an ordinary object of a new identity, taken from the counter \<open>n\<close>; the counter
  after the copy is returned with it. A function is not a container and is returned as
  it is; the copy of \<open>Object.prototype\<close> is a new empty object.
\<close>

fun clone_from :: "val \<Rightarrow> nat \<Rightarrow> val \<times> nat"
  and clone_fields :: "fields \<Rightarrow> nat \<Rightarrow> fields \<times> nat" where
  "clone_from (Obj i fs) n = (case clone_fields fs (Suc n) of (fs', n') \<Rightarrow> (Obj n fs', n'))"
| "clone_from Undefined n = (Undefined, n)"
| "clone_from Null n = (Null, n)"
| "clone_from (Bool b) n = (Bool b, n)"
| "clone_from (Num x) n = (Num x, n)"
| "clone_from NaN n = (NaN, n)"
| "clone_from (Str s) n = (Str s, n)"
| "clone_from (Function i) n = (Function i, n)"
| "clone_from (Builtin x) n = (Builtin x, n)"
| "clone_from ObjectPrototype n = (Obj n [], Suc n)"
| "clone_fields [] n = ([], n)"
| "clone_fields (p # fs) n =
     (case clone_from (snd p) n of (v', n') \<Rightarrow>
        (case clone_fields fs n' of (fs', n'') \<Rightarrow> ((fst p, v') # fs', n'')))"

text \<open>The own enumerable properties an object spread copies out of a value: the fields of
  an ordinary object, the indexed characters of a string, nothing for the other values.\<close>

fun index_chars :: "nat \<Rightarrow> string \<Rightarrow> fields" where
  "index_chars i [] = []"
| "index_chars i (c # cs) = (KStr (show_nat i), Str [c]) # index_chars (Suc i) cs"

fun own_props :: "val \<Rightarrow> fields" where
  "own_props (Obj i fs) = fs"
| "own_props (Str s) = index_chars 0 s"
| "own_props _ = []"

section \<open>The store\<close>

record IStoreListener =
  key :: key
  cb :: nat

text \<open>
  The three private fields of the class; \<open>None\<close> is \<open>null\<close>, which \<open>destroy('store')\<close>
  assigns. \<open>store_proto\<close> is the prototype of the state object. The rest is what the
  store needs from its environment. A listener callback is identified by a number (its
  reference); calling it is recorded in \<open>calls\<close> with the argument it received, and a
  callback does not itself call the store. \<open>next_id\<close> is the identity the next new
  object gets. \<open>fn_call f x\<close> is what the function object \<open>f\<close> returns when called with
  \<open>x\<close>, and \<open>fn_prop f k\<close> is the property \<open>k\<close> read through \<open>f\<close>.
\<close>

record state =
  priv_store :: "obj option"
  priv_listeners :: "IStoreListener list option"
  priv_default :: "obj option"
  store_proto :: val
  calls :: "(nat \<times> val) list"
  next_id :: nat
  fn_call :: "val \<Rightarrow> val \<Rightarrow> val"
  fn_prop :: "val \<Rightarrow> key \<Rightarrow> val"

text \<open>The second argument of \<open>set\<close>, and a field of the record given to \<open>set\<close>: a value
  (which may be a function object), or a function given by what it returns.\<close>

datatype setter = Lit val | Fn "val \<Rightarrow> val"

text \<open>The first argument of \<open>set\<close> and \<open>get\<close>, as it arrives at run time.\<close>

datatype jsarg =
    JUndefined
  | JNull
  | JBool bool
  | JBigInt int
  | JString string
  | JNumber int
  | JSymbol nat
  | JArray "key list"
  | JObject "(key \<times> setter) list"

fun isCallBack :: "setter \<Rightarrow> bool" where
  "isCallBack (Fn _) = True"
| "isCallBack (Lit v) = is_function v"

text \<open>Calling the second argument as a function.\<close>

fun call_setter :: "state \<Rightarrow> setter \<Rightarrow> val \<Rightarrow> val" where
  "call_setter s (Fn f) x = f x"
| "call_setter s (Lit v) x = fn_call s v x"

fun setter_value :: "setter \<Rightarrow> val" where
  "setter_value (Lit v) = v"
| "setter_value (Fn f) = Undefined"

fun Array_isArray :: "jsarg \<Rightarrow> bool" where
  "Array_isArray (JArray _) = True"
| "Array_isArray _ = False"

fun instanceof_Object :: "jsarg \<Rightarrow> bool" where
  "instanceof_Object (JArray _) = True"
| "instanceof_Object (JObject _) = True"
| "instanceof_Object _ = False"

definition isRecord :: "jsarg \<Rightarrow> bool" where
  "isRecord data = (instanceof_Object data \<and> \<not> Array_isArray data)"

fun isRecordKey :: "jsarg \<Rightarrow> bool" where
  "isRecordKey (JString _) = True"
| "isRecordKey (JNumber _) = True"
| "isRecordKey (JSymbol _) = True"
| "isRecordKey _ = False"

text \<open>The argument used as a key: a string, number or symbol is the key itself, any other
  primitive is read through its name.\<close>

fun as_key :: "jsarg \<Rightarrow> key" where
  "as_key (JString s) = KStr s"
| "as_key (JNumber n) = KNum n"
| "as_key (JSymbol n) = KSym n"
| "as_key JNull = KStr ''null''"
| "as_key (JBool b) = KStr (if b then ''true'' else ''false'')"
| "as_key (JBigInt i) = KStr (show_int i)"
| "as_key (JObject _) = KStr ''[object Object]''"
| "as_key _ = KStr ''undefined''"

fun key_arg :: "key \<Rightarrow> jsarg" where
  "key_arg (KStr s) = JString s"
| "key_arg (KNum n) = JNumber n"
| "key_arg (KSym n) = JSymbol n"

fun as_array :: "jsarg \<Rightarrow> key list" where
  "as_array (JArray ks) = ks"
| "as_array _ = []"

fun as_record :: "jsarg \<Rightarrow> (key \<times> setter) list" where
  "as_record (JObject r) = r"
| "as_record _ = []"

definition and_then :: "error + 'a \<Rightarrow> ('a \<Rightarrow> error + 'b) \<Rightarrow> error + 'b" where
  "and_then r f = (case r of Inl e \<Rightarrow> Inl e | Inr x \<Rightarrow> f x)"

subsection \<open>Allocation\<close>

text \<open>
  Modelled from the spec: \<open>clone\<close> of \<open>./Utils\<close> as the store calls it. The copies get
  identities that neither the state has handed out nor the copied value contains.
  \<open>clone_obj\<close> is \<open>clone\<close> at an object.
\<close>

definition clone :: "val \<Rightarrow> state \<Rightarrow> val \<times> state" where
  "clone v s = (case clone_from v (max (next_id s) (top_id v)) of
                  (v', n) \<Rightarrow> (v', s\<lparr>next_id := n\<rparr>))"

definition clone_obj :: "obj \<Rightarrow> state \<Rightarrow> obj \<times> state" where
  "clone_obj ob s =
     (let n = max (next_id s) (top_id (Obj (fst ob) (snd ob))) in
      case clone_fields (snd ob) (Suc n) of
        (fs', n') \<Rightarrow> ((n, fs'), s\<lparr>next_id := n'\<rparr>))"

text \<open>An object literal with the given properties: a new object.\<close>

definition new_object :: "fields \<Rightarrow> state \<Rightarrow> obj \<times> state" where
  "new_object fs s =
     (let n = max (next_id s) (top_fields fs) in ((n, fs), s\<lparr>next_id := Suc n\<rparr>))"

subsection \<open>Private methods\<close>

text \<open>\<open>this._store[key]\<close>, read through the prototype of the state object.\<close>

definition priv_get :: "key \<Rightarrow> state \<Rightarrow> error + val" where
  "priv_get k s =
     (case priv_store s of
        None \<Rightarrow> Inl TypeError
      | Some ob \<Rightarrow> Inr (obj_read (fn_prop s) (snd ob) (store_proto s) k))"

definition priv_addNewListener :: "IStoreListener \<Rightarrow> state \<Rightarrow> error + state" where
  "priv_addNewListener newListener s =
     (case priv_listeners s of
        None \<Rightarrow> Inl TypeError
      | Some ls \<Rightarrow> Inr (s\<lparr>priv_listeners := Some (ls @ [newListener])\<rparr>))"

definition priv_removeListener :: "key \<Rightarrow> nat \<Rightarrow> state \<Rightarrow> error + state" where
  "priv_removeListener k c s =
     (case priv_listeners s of
        None \<Rightarrow> Inl TypeError
      | Some ls \<Rightarrow>
          Inr (s\<lparr>priv_listeners := Some (filter (\<lambda>i. key i \<noteq> k \<and> cb i \<noteq> c) ls)\<rparr>))"

text \<open>The body of the \<open>forEach\<close> of \<open>_notifyListeners\<close>, over the listeners in order.\<close>

fun notify_each :: "key list \<Rightarrow> IStoreListener list \<Rightarrow> state \<Rightarrow> error + state" where
  "notify_each keys [] s = Inr s"
| "notify_each keys (v # vs) s =
     (if key v \<in> set keys
      then and_then (priv_get (key v) s)
             (\<lambda>x. notify_each keys vs (s\<lparr>calls := calls s @ [(cb v, x)]\<rparr>))
      else notify_each keys vs s)"

definition priv_notifyListeners :: "key list \<Rightarrow> state \<Rightarrow> error + state" where
  "priv_notifyListeners keys s =
     (case priv_listeners s of None \<Rightarrow> Inl TypeError | Some ls \<Rightarrow> notify_each keys ls s)"

subsection \<open>get\<close>

text \<open>The \<open>forEach\<close> of \<open>get\<close>: \<open>result[k] = this._get(k)\<close>, on the new object \<open>result\<close>, given
  by its own properties and its prototype.\<close>

fun get_each :: "key list \<Rightarrow> fields \<times> val \<Rightarrow> state \<Rightarrow> error + fields \<times> val" where
  "get_each [] result s = Inr result"
| "get_each (k # ks) result s =
     and_then (priv_get k s) (\<lambda>v. get_each ks (obj_write (fst result) (snd result) k v) s)"

definition get :: "jsarg \<Rightarrow> state \<Rightarrow> error + val \<times> state" where
  "get keys s =
     (if Array_isArray keys
      then (case new_object [] s of
              (ob, s') \<Rightarrow>
                and_then (get_each (as_array keys) (snd ob, ObjectPrototype) s')
                  (\<lambda>result. Inr (Obj (fst ob) (fst result), s')))
      else and_then (priv_get (as_key keys) s) (\<lambda>v. Inr (v, s)))"

subsection \<open>The private setter\<close>

definition store_fields :: "state \<Rightarrow> fields" where
  "store_fields s = (case priv_store s of None \<Rightarrow> [] | Some ob \<Rightarrow> snd ob)"

text \<open>\<open>this._store[key] = v\<close> on the state object \<open>ob\<close>.\<close>

definition store_write :: "obj \<Rightarrow> key \<Rightarrow> val \<Rightarrow> state \<Rightarrow> state" where
  "store_write ob k v s =
     (case obj_write (snd ob) (store_proto s) k v of
        (fs, p) \<Rightarrow> s\<lparr>priv_store := Some (fst ob, fs), store_proto := p\<rparr>)"

text \<open>A new ordinary object becomes the state object.\<close>

definition store_replace :: "obj \<Rightarrow> state \<Rightarrow> state" where
  "store_replace ob s = s\<lparr>priv_store := Some ob, store_proto := ObjectPrototype\<rparr>"

definition priv_set :: "jsarg \<Rightarrow> setter \<Rightarrow> state \<Rightarrow> error + state" where
  "priv_set k setState s =
     (if Array_isArray k then
        and_then (get k s)
          (\<lambda>(data, s1).
             if \<not> isCallBack setState then Inl TypeError
             else
               (case new_object (spread (store_fields s1)
                                   (own_props (call_setter s1 setState data))) s1 of
                  (merged, s2) \<Rightarrow>
                    (case clone_obj merged s2 of
                       (copy, s3) \<Rightarrow>
                         priv_notifyListeners (as_array k) (store_replace copy s3))))
      else if isRecordKey k then
        (case priv_store s of
           None \<Rightarrow> Inl TypeError
         | Some ob \<Rightarrow>
             (let st = obj_read (fn_prop s) (snd ob) (store_proto s) (as_key k) in
              if isCallBack setState then
                (let newState = call_setter s setState st;
                     haveToNotify = (\<not> strict_eq newState st)
                 in case clone newState s of
                      (copy, s1) \<Rightarrow>
                        (let s2 = store_write ob (as_key k) copy s1
                         in if haveToNotify then priv_notifyListeners [as_key k] s2 else Inr s2))
              else
                (let haveToNotify = (\<not> strict_eq st (setter_value setState))
                 in case clone (setter_value setState) s of
                      (copy, s1) \<Rightarrow>
                        (let s2 = store_write ob (as_key k) copy s1
                         in if haveToNotify then priv_notifyListeners [as_key k] s2 else Inr s2))))
      else Inr s)"

subsection \<open>Public methods\<close>

definition configureDefault :: "obj \<Rightarrow> state \<Rightarrow> state" where
  "configureDefault defaultData s =
     (case clone_obj defaultData s of (copy, s') \<Rightarrow> s'\<lparr>priv_default := Some copy\<rparr>)"


definition setAll :: "obj \<Rightarrow> state \<Rightarrow> state" where
  "setAll data s = (case clone_obj data s of (copy, s') \<Rightarrow> store_replace copy s')"

definition data_at :: "(key \<times> setter) list \<Rightarrow> key \<Rightarrow> setter" where
  "data_at data k = (case map_of data k of None \<Rightarrow> Lit Undefined | Some p \<Rightarrow> p)"

fun set_each :: "(key \<times> setter) list \<Rightarrow> key list \<Rightarrow> state \<Rightarrow> error + state" where
  "set_each data [] s = Inr s"
| "set_each data (k # ks) s =
     and_then (priv_set (key_arg k) (data_at data k) s) (set_each data ks)"

definition set_op :: "jsarg \<Rightarrow> setter \<Rightarrow> state \<Rightarrow> error + state" where
  "set_op data setState s =
     (if Array_isArray data then priv_set data setState s
      else if isRecord data then set_each (as_record data) (Object_keys (as_record data)) s
      else if isRecordKey data then priv_set data setState s
      else Inr s)"

definition subscribe :: "key \<Rightarrow> nat \<Rightarrow> state \<Rightarrow> error + state" where
  "subscribe k c s =
     (let newListener = \<lparr>key = k, cb = c\<rparr>
      in and_then (priv_removeListener k c s) (priv_addNewListener newListener))"

definition unsubscribe :: "key \<Rightarrow> nat \<Rightarrow> state \<Rightarrow> error + state" where
  "unsubscribe k c s = priv_removeListener k c s"

definition clearStore :: "state \<Rightarrow> state" where
  "clearStore s = (case new_object [] s of (ob, s') \<Rightarrow> store_replace ob s')"

definition clearListeners :: "state \<Rightarrow> state" where
  "clearListeners s = s\<lparr>priv_listeners := Some []\<rparr>"

text \<open>An object of values as the first argument of \<open>set\<close>: each field is handed on as
  it is, a function-valued field being a function for \<open>_set\<close>.\<close>

definition record_arg :: "fields \<Rightarrow> (key \<times> setter) list" where
  "record_arg fs = map (\<lambda>p. (fst p, Lit (snd p))) fs"

definition restoreDefault :: "obj option \<Rightarrow> state \<Rightarrow> error + state" where
  "restoreDefault defaultData s =
     (let s1 = clearStore s in
      case defaultData of
        Some d \<Rightarrow> set_op (JObject (record_arg (snd d))) (Lit Undefined) s1
      | None \<Rightarrow>
          (case priv_default s1 of
             Some d \<Rightarrow> set_op (JObject (record_arg (snd d))) (Lit Undefined) s1
           | None \<Rightarrow>
               (case new_object [] s1 of
                  (e, s2) \<Rightarrow> set_op (JObject (record_arg (snd e))) (Lit Undefined) s2)))"

datatype destroy_type = Record_type | Store_type

definition destroy :: "destroy_type \<Rightarrow> key option \<Rightarrow> state \<Rightarrow> error + bool \<times> state" where
  "destroy ty k s =
     (case ty of
        Record_type \<Rightarrow>
          (case priv_store s of
             None \<Rightarrow> Inl TypeError
           | Some ob \<Rightarrow>
               (case prop_delete (snd ob) (case k of None \<Rightarrow> KStr ''undefined'' | Some x \<Rightarrow> x) of
                  (r, fs) \<Rightarrow> Inr (r, s\<lparr>priv_store := Some (fst ob, fs)\<rparr>)))
      | Store_type \<Rightarrow>
          Inr (True, s\<lparr>priv_store := None, priv_listeners := None, priv_default := None\<rparr>))"

text \<open>The field initialisers and the constructor; \<open>n\<close> is the first unused identity. The
  environment of a store made this way has no function objects of its own: calling or
  reading one gives \<open>undefined\<close>.\<close>

definition initial :: "nat \<Rightarrow> state" where
  "initial n =
     \<lparr>priv_store = Some (n, []), priv_listeners = Some [], priv_default = Some (Suc n, []),
      store_proto = ObjectPrototype, calls = [], next_id = Suc (Suc n),
      fn_call = (\<lambda>f x. Undefined), fn_prop = (\<lambda>f k. Undefined)\<rparr>"

definition Store :: "obj option \<Rightarrow> nat \<Rightarrow> error + state" where
  "Store defaultValues n =
     (case defaultValues of
        Some d \<Rightarrow> restoreDefault None (configureDefault d (initial n))
      | None \<Rightarrow> Inr (initial n))"

subsection \<open>Writes from outside\<close>




subsection \<open>The allocation invariant\<close>

text \<open>Every object the store holds (in the live state, as the prototype of the state
  object, in the default snapshot) has an identity below \<open>next_id\<close>: the identities from
  \<open>next_id\<close> on are new.\<close>

definition held_ids :: "state \<Rightarrow> nat set" where
  "held_ids s =
     (case priv_store s of None \<Rightarrow> {} | Some ob \<Rightarrow> ids (Obj (fst ob) (snd ob))) \<union>
     (case priv_default s of None \<Rightarrow> {} | Some ob \<Rightarrow> ids (Obj (fst ob) (snd ob))) \<union>
     ids (store_proto s)"

definition allocated :: "state \<Rightarrow> bool" where
  "allocated s = (\<forall>i\<in>held_ids s. i < next_id s)"

subsection \<open>Restoring a field\<close>

text \<open>What \<open>_set(k, v)\<close> stores for the field \<open>v\<close> of a record when the state has just been
  cleared: \<open>v\<close> itself, or, \<open>v\<close> being a function, what \<open>v\<close> returns for the value the
  empty state object has under \<open>k\<close>.\<close>

definition restored_value :: "state \<Rightarrow> key \<Rightarrow> val \<Rightarrow> val" where
  "restored_value s k v = (if is_function v then fn_call s v (Object_prototype_get k) else v)"

text \<open>The value of a field of a record, \<open>undefined\<close> when the record has no such field.\<close>

definition field_value :: "fields \<Rightarrow> key \<Rightarrow> val" where
  "field_value fs k = (case map_of fs k of None \<Rightarrow> Undefined | Some v \<Rightarrow> v)"

section \<open>Properties\<close>

subsection \<open>Auxiliary facts\<close>

lemma strict_eq_sym: "strict_eq a b = strict_eq b a"
  by (cases a; cases b) auto

lemma strict_eq_Undefined: "strict_eq Undefined v = (v = Undefined)"
  by (cases v) auto

lemma as_key_key_arg: "as_key (key_arg k) = k"
  by (cases k) simp_all

lemma isRecordKey_key_arg: "isRecordKey (key_arg k)"
  by (cases k) simp_all

lemma not_array_key_arg: "\<not> Array_isArray (key_arg k)"
  by (cases k) simp_all

lemma not_record_key_arg: "\<not> isRecord (key_arg k)"
  by (cases k) (simp_all add: isRecord_def)

lemma ToPropertyKey_string: "is_string_key k \<Longrightarrow> ToPropertyKey k = k"
  by (cases k) simp_all


lemma assign_absent: "map_of fs k = None \<Longrightarrow> assign fs k v = fs @ [(k, v)]"
  by (induction fs k v rule: assign.induct) (auto split: if_splits)

lemma map_of_filter_out: "map_of (filter (\<lambda>p. fst p \<noteq> k) fs) k = None"
  by (induction fs) auto


lemma obj_read_absent:
  "map_of fs (ToPropertyKey k) = None \<Longrightarrow> obj_read fp fs p k = inherited fp p (ToPropertyKey k)"
  by (simp add: obj_read_def)

text \<open>A write under a name other than \<open>__proto__\<close> defines an own property and leaves the
  prototype alone.\<close>

lemma obj_write_plain:
  "ToPropertyKey k \<noteq> proto_key \<Longrightarrow> obj_write fs p k v = (assign fs (ToPropertyKey k) v, p)"
  by (simp add: obj_write_def)

text \<open>With a live store object, notification calls every listener whose key is among the
  changed keys, in registration order, with the current value of its key.\<close>

lemma notify_each_live:
  "priv_store s = Some ob \<Longrightarrow>
   notify_each keys ls s =
     Inr (s\<lparr>calls := calls s @ map (\<lambda>v. (cb v, obj_read (fn_prop s) (snd ob) (store_proto s) (key v)))
                                  (filter (\<lambda>v. key v \<in> set keys) ls)\<rparr>)"
proof (induction ls arbitrary: s)
  case Nil
  then show ?case by simp
next
  case (Cons v vs)
  show ?case
  proof (cases "key v \<in> set keys")
    case True
    let ?s = "s\<lparr>calls := calls s @ [(cb v, obj_read (fn_prop s) (snd ob) (store_proto s) (key v))]\<rparr>"
    have "priv_store ?s = Some ob" using Cons.prems by simp
    from Cons.IH [OF this] True Cons.prems show ?thesis
      by (simp add: priv_get_def and_then_def)
  next
    case False
    with Cons show ?thesis by simp
  qed
qed

text \<open>Facts on the copy: it is structurally equal to its input, the counter only grows,
  and the identities of the copy are exactly those handed out during the copy.\<close>

lemma clone_erase:
  "erase (fst (clone_from v n)) = erase v"
  "erase_fields (fst (clone_fields fs n)) = erase_fields fs"
  by (induction v n and fs n rule: clone_from_clone_fields.induct)
     (auto split: prod.splits)

lemma clone_mono:
  "n \<le> snd (clone_from v n)"
  "n \<le> snd (clone_fields fs n)"
proof (induction v n and fs n rule: clone_from_clone_fields.induct)
  case (1 i fs n)
  then show ?case by (auto split: prod.splits)
next
  case (12 p fs n)
  then show ?case
    by (cases "clone_from (snd p) n"; cases "clone_fields fs (snd (clone_from (snd p) n))")
       auto
qed simp_all

lemma clone_ids:
  "ids (fst (clone_from v n)) \<subseteq> {n ..< snd (clone_from v n)}"
  "ids_fields (fst (clone_fields fs n)) \<subseteq> {n ..< snd (clone_fields fs n)}"
proof (induction v n and fs n rule: clone_from_clone_fields.induct)
  case (1 i fs n)
  have "Suc n \<le> snd (clone_fields fs (Suc n))" by (rule clone_mono)
  with 1 show ?case by (auto split: prod.splits)
next
  case (12 p fs n)
  obtain v' n' where a: "clone_from (snd p) n = (v', n')" by (cases "clone_from (snd p) n")
  obtain fs' n'' where b: "clone_fields fs n' = (fs', n'')" by (cases "clone_fields fs n'")
  have m1: "n \<le> n'" using clone_mono(1) [of n "snd p"] a by simp
  have m2: "n' \<le> n''" using clone_mono(2) [of n' fs] b by simp
  have i1: "ids v' \<subseteq> {n ..< n'}" using 12(1) a by simp
  have i2: "ids_fields fs' \<subseteq> {n' ..< n''}" using 12(2) [OF a [symmetric]] a b by simp
  show ?case using a b m1 m2 i1 i2 by auto
qed simp_all

lemma ids_below_top:
  "i \<in> ids v \<Longrightarrow> i < top_id v"
  "i \<in> ids_fields fs \<Longrightarrow> i < top_fields fs"
  by (induction v and fs rule: ids_ids_fields.induct) auto

lemma clone_obj_props:
  assumes "clone_obj ob s = (copy, s')"
  shows "erase_fields (snd copy) = erase_fields (snd ob)"
    and "s' = s\<lparr>next_id := next_id s'\<rparr>"
    and "fst copy = max (next_id s) (top_id (Obj (fst ob) (snd ob)))"
    and "ids_fields (snd copy) \<subseteq> {Suc (fst copy) ..< next_id s'}"
    and "fst copy < next_id s'"
proof -
  let ?n = "max (next_id s) (top_id (Obj (fst ob) (snd ob)))"
  obtain fs' n' where c: "clone_fields (snd ob) (Suc ?n) = (fs', n')"
    by (cases "clone_fields (snd ob) (Suc ?n)")
  have r: "copy = (?n, fs')" "s' = s\<lparr>next_id := n'\<rparr>"
    using assms c by (simp_all add: clone_obj_def Let_def)
  show "erase_fields (snd copy) = erase_fields (snd ob)"
    using clone_erase(2) [of "snd ob" "Suc ?n"] c r by simp
  show "s' = s\<lparr>next_id := next_id s'\<rparr>" using r by simp
  show "fst copy = ?n" using r by simp
  show "ids_fields (snd copy) \<subseteq> {Suc (fst copy) ..< next_id s'}"
    using clone_ids(2) [of "snd ob" "Suc ?n"] c r by simp
  show "fst copy < next_id s'"
    using clone_mono(2) [of "Suc ?n" "snd ob"] c r by (simp del: top_id.simps, linarith)
qed

lemma clone_obj_frame:
  assumes "clone_obj ob s = (copy, s')"
  shows "calls s' = calls s" and "priv_listeners s' = priv_listeners s"
    and "priv_store s' = priv_store s" and "priv_default s' = priv_default s"
    and "store_proto s' = store_proto s" and "fn_call s' = fn_call s"
    and "fn_prop s' = fn_prop s"
  using assms by (auto simp add: clone_obj_def Let_def split: prod.splits)



text \<open>The single-key setter on a live store, step by step.\<close>

lemma priv_set_key_live:
  assumes "priv_store s = Some ob" and "priv_listeners s = Some ls"
    and "old = obj_read (fn_prop s) (snd ob) (store_proto s) k"
    and "new = (if isCallBack p then call_setter s p old else setter_value p)"
    and "clone_from new (max (next_id s) (top_id new)) = (copy, n)"
    and "obj_write (snd ob) (store_proto s) k copy = (fs', p')"
  shows "priv_set (key_arg k) p s =
           Inr (s\<lparr>next_id := n, priv_store := Some (fst ob, fs'), store_proto := p',
                  calls := calls s @ (if strict_eq new old then []
                             else map (\<lambda>l. (cb l, obj_read (fn_prop s) fs' p' k))
                                      (filter (\<lambda>l. key l = k) ls))\<rparr>)"
proof -
  let ?s1 = "s\<lparr>next_id := n\<rparr>"
  let ?s2 = "s\<lparr>next_id := n, priv_store := Some (fst ob, fs'), store_proto := p'\<rparr>"
  have cl: "clone new s = (copy, ?s1)" using assms(5) by (simp add: clone_def)
  have sw: "store_write ob k copy ?s1 = ?s2" using assms(6) by (simp add: store_write_def)
  have st: "priv_store ?s2 = Some (fst ob, fs')" by simp
  have m: "map (\<lambda>l. (cb l, obj_read (fn_prop s) fs' p' (key l))) (filter (\<lambda>l. key l \<in> set [k]) ls)
         = map (\<lambda>l. (cb l, obj_read (fn_prop s) fs' p' k)) (filter (\<lambda>l. key l = k) ls)"
    by (induction ls) auto
  have nt: "priv_notifyListeners [k] ?s2 =
      Inr (?s2\<lparr>calls := calls s @ map (\<lambda>l. (cb l, obj_read (fn_prop s) fs' p' k))
                                          (filter (\<lambda>l. key l = k) ls)\<rparr>)"
    using notify_each_live [OF st, of "[k]" ls] assms(2) m
    by (simp add: priv_notifyListeners_def)
  show ?thesis
  proof (cases "isCallBack p")
    case True
    with assms(1,3,4) cl sw nt show ?thesis
      by (simp add: priv_set_def not_array_key_arg isRecordKey_key_arg as_key_key_arg Let_def)
  next
    case False
    with assms(1,3,4) cl sw nt show ?thesis
      by (simp add: priv_set_def not_array_key_arg isRecordKey_key_arg as_key_key_arg Let_def
          strict_eq_sym [of "setter_value p"])
  qed
qed

text \<open>Restoring the fields of a record into a state that has just been cleared.\<close>

lemma data_at_record_arg: "data_at (record_arg fs) k = Lit (field_value fs k)"
  by (induction fs) (auto simp add: data_at_def record_arg_def field_value_def)

lemma Object_keys_record_arg: "Object_keys (record_arg fs) = filter is_string_key (map fst fs)"
  by (simp add: Object_keys_def record_arg_def comp_def)

lemma set_each_fields:
  assumes "priv_listeners s = Some ls" and "priv_store s = Some ob"
    and "store_proto s = ObjectPrototype" and "distinct ks"
    and "\<forall>k\<in>set ks. is_string_key k \<and> k \<noteq> proto_key \<and> map_of (snd ob) k = None"
  shows "\<exists>s' fs'. set_each (record_arg fs) ks s = Inr s' \<and>
           priv_store s' = Some (fst ob, snd ob @ fs') \<and>
           store_proto s' = ObjectPrototype \<and>
           erase_fields fs' = map (\<lambda>k. (k, erase (restored_value s k (field_value fs k)))) ks \<and>
           ids_fields fs' \<subseteq> {next_id s ..< next_id s'} \<and>
           next_id s \<le> next_id s' \<and>
           priv_listeners s' = Some ls \<and>
           priv_default s' = priv_default s \<and>
           fn_call s' = fn_call s \<and>
           map fst (calls s') = map fst (calls s) @
             concat (map (\<lambda>k. if strict_eq (restored_value s k (field_value fs k))
                                            (Object_prototype_get k) then []
                               else map cb (filter (\<lambda>l. key l = k) ls)) ks)"
  using assms
proof (induction ks arbitrary: s ob)
  case Nil
  have "priv_store s = Some (fst ob, snd ob @ [])" using Nil.prems(2) by simp
  with Nil.prems(1,3) show ?case by (intro exI [of _ s] exI [of _ "[]"]) simp
next
  case (Cons k ks)
  have sk: "is_string_key k" and np: "k \<noteq> proto_key" and ab: "map_of (snd ob) k = None"
    using Cons.prems(5) by simp_all
  have tk: "ToPropertyKey k = k" using sk by (rule ToPropertyKey_string)
  let ?old = "obj_read (fn_prop s) (snd ob) (store_proto s) k"
  have old: "?old = Object_prototype_get k"
    using ab tk Cons.prems(3) by (simp add: obj_read_def)
  let ?p = "Lit (field_value fs k)"
  let ?v = "restored_value s k (field_value fs k)"
  have new: "?v = (if isCallBack ?p then call_setter s ?p ?old else setter_value ?p)"
    using old by (simp add: restored_value_def)
  obtain copy n where c: "clone_from ?v (max (next_id s) (top_id ?v)) = (copy, n)"
    by (cases "clone_from ?v (max (next_id s) (top_id ?v))")
  have w: "obj_write (snd ob) (store_proto s) k copy = (snd ob @ [(k, copy)], ObjectPrototype)"
    using np tk ab Cons.prems(3) by (simp add: obj_write_def assign_absent)
  have rb: "obj_read (fn_prop s) (snd ob @ [(k, copy)]) ObjectPrototype k = copy"
    using tk ab by (simp add: obj_read_def map_add_def)
  let ?new = "if strict_eq ?v (Object_prototype_get k) then []
              else map (\<lambda>l. (cb l, copy)) (filter (\<lambda>l. key l = k) ls)"
  let ?s1 = "s\<lparr>next_id := n, priv_store := Some (fst ob, snd ob @ [(k, copy)]),
               store_proto := ObjectPrototype, calls := calls s @ ?new\<rparr>"
  have step: "priv_set (key_arg k) (data_at (record_arg fs) k) s = Inr ?s1"
    using priv_set_key_live [OF Cons.prems(2) Cons.prems(1) refl new c w] old rb
    by (simp add: data_at_record_arg)
  let ?ob1 = "(fst ob, snd ob @ [(k, copy)])"
  have p1: "priv_listeners ?s1 = Some ls" using Cons.prems(1) by simp
  have p2: "priv_store ?s1 = Some ?ob1" by simp
  have p3: "store_proto ?s1 = ObjectPrototype" by simp
  have p4: "distinct ks" using Cons.prems(4) by simp
  have p5: "\<forall>k'\<in>set ks. is_string_key k' \<and> k' \<noteq> proto_key \<and> map_of (snd ?ob1) k' = None"
    using Cons.prems(4,5) by auto
  have rv: "\<And>k' v. restored_value ?s1 k' v = restored_value s k' v"
    by (simp add: restored_value_def)
  from Cons.IH [OF p1 p2 p3 p4 p5] obtain s' fs' where
    r1: "set_each (record_arg fs) ks ?s1 = Inr s'" and
    r2: "priv_store s' = Some (fst ?ob1, snd ?ob1 @ fs')" and
    r2p: "store_proto s' = ObjectPrototype" and
    r3: "erase_fields fs' = map (\<lambda>k. (k, erase (restored_value ?s1 k (field_value fs k)))) ks" and
    r4: "ids_fields fs' \<subseteq> {next_id ?s1 ..< next_id s'}" and
    r5: "next_id ?s1 \<le> next_id s'" and
    r6: "priv_listeners s' = Some ls" and
    r7: "priv_default s' = priv_default ?s1" and
    r7f: "fn_call s' = fn_call ?s1" and
    r8: "map fst (calls s') = map fst (calls ?s1) @
             concat (map (\<lambda>k. if strict_eq (restored_value ?s1 k (field_value fs k))
                                            (Object_prototype_get k) then []
                               else map cb (filter (\<lambda>l. key l = k) ls)) ks)"
    by blast
  have e: "erase copy = erase ?v" using clone_erase(1) [of ?v "max (next_id s) (top_id ?v)"] c by simp
  have i: "ids copy \<subseteq> {max (next_id s) (top_id ?v) ..< n}"
    using clone_ids(1) [of ?v "max (next_id s) (top_id ?v)"] c by simp
  have mn: "max (next_id s) (top_id ?v) \<le> n"
    using clone_mono(1) [of "max (next_id s) (top_id ?v)" ?v] c by simp
  have n1: "next_id ?s1 = n" by simp
  have q1: "set_each (record_arg fs) (k # ks) s = Inr s'"
    using step r1 by (simp add: and_then_def)
  have q2: "priv_store s' = Some (fst ob, snd ob @ ((k, copy) # fs'))" using r2 by simp
  have q3: "erase_fields ((k, copy) # fs') =
      map (\<lambda>k. (k, erase (restored_value s k (field_value fs k)))) (k # ks)"
    using r3 e by (simp add: rv)
  have q5: "next_id s \<le> next_id s'" using r5 mn n1 by linarith
  have q4: "ids_fields ((k, copy) # fs') \<subseteq> {next_id s ..< next_id s'}"
  proof
    fix j assume "j \<in> ids_fields ((k, copy) # fs')"
    then have "j \<in> ids copy \<or> j \<in> ids_fields fs'" by simp
    then show "j \<in> {next_id s ..< next_id s'}"
    proof
      assume "j \<in> ids copy"
      with i have "max (next_id s) (top_id ?v) \<le> j \<and> j < n" by auto
      with r5 n1 show ?thesis by simp
    next
      assume "j \<in> ids_fields fs'"
      with r4 n1 have "n \<le> j \<and> j < next_id s'" by auto
      with mn show ?thesis by simp
    qed
  qed
  have q7: "priv_default s' = priv_default s" using r7 by simp
  have q7f: "fn_call s' = fn_call s" using r7f by simp
  have q8: "map fst (calls s') = map fst (calls s) @
             concat (map (\<lambda>k. if strict_eq (restored_value s k (field_value fs k))
                                            (Object_prototype_get k) then []
                               else map cb (filter (\<lambda>l. key l = k) ls)) (k # ks))"
    using r8 by (simp add: comp_def rv)
  from q1 q2 r2p q3 q4 q5 r6 q7 q7f q8 show ?case by blast
qed

lemma string_fields_map:
  assumes "distinct (map fst fs)"
  shows "map (\<lambda>k. g k (field_value fs k)) (filter is_string_key (map fst fs)) =
         map (\<lambda>p. g (fst p) (snd p)) (filter (\<lambda>p. is_string_key (fst p)) fs)"
proof -
  have "filter is_string_key (map fst fs) = map fst (filter (\<lambda>p. is_string_key (fst p)) fs)"
    by (simp add: filter_map comp_def)
  moreover have "\<And>p. p \<in> set (filter (\<lambda>p. is_string_key (fst p)) fs) \<Longrightarrow>
      g (fst p) (field_value fs (fst p)) = g (fst p) (snd p)"
    using assms by (auto simp add: field_value_def)
  ultimately show ?thesis by (simp add: comp_def cong: map_cong)
qed

lemma restoreDefault_live:
  assumes "priv_listeners s = Some ls"
    and "(case dd of Some x \<Rightarrow> Some x | None \<Rightarrow> priv_default s) = Some d"
    and "distinct (map fst (snd d))"
    and "proto_key \<notin> fst ` set (snd d)"
  shows "\<exists>s' fs'. restoreDefault dd s = Inr s' \<and>
           priv_store s' = Some (next_id s, fs') \<and>
           store_proto s' = ObjectPrototype \<and>
           erase_fields fs' = map (\<lambda>p. (fst p, erase (restored_value s (fst p) (snd p))))
                                  (filter (\<lambda>p. is_string_key (fst p)) (snd d)) \<and>
           ids_fields fs' \<subseteq> {Suc (next_id s) ..< next_id s'} \<and>
           next_id s < next_id s' \<and>
           priv_listeners s' = Some ls \<and>
           priv_default s' = priv_default s \<and>
           fn_call s' = fn_call s \<and>
           map fst (calls s') = map fst (calls s) @
             concat (map (\<lambda>p. if strict_eq (restored_value s (fst p) (snd p))
                                            (Object_prototype_get (fst p)) then []
                               else map cb (filter (\<lambda>l. key l = fst p) ls))
                         (filter (\<lambda>p. is_string_key (fst p)) (snd d)))"
proof -
  let ?s1 = "s\<lparr>next_id := Suc (next_id s), priv_store := Some (next_id s, []),
               store_proto := ObjectPrototype\<rparr>"
  let ?ks = "filter is_string_key (map fst (snd d))"
  have cs: "clearStore s = ?s1"
    by (simp add: clearStore_def new_object_def store_replace_def Let_def)
  have run: "restoreDefault dd s = set_each (record_arg (snd d)) ?ks ?s1"
    using assms(2)
    by (auto simp add: restoreDefault_def cs Let_def set_op_def isRecord_def
        Object_keys_record_arg split: option.splits)
  have p1: "priv_listeners ?s1 = Some ls" using assms(1) by simp
  have p2: "priv_store ?s1 = Some (next_id s, [])" by simp
  have p3: "store_proto ?s1 = ObjectPrototype" by simp
  have p4: "distinct ?ks" using assms(3) by (simp add: distinct_map_filter)
  have p5: "\<forall>k\<in>set ?ks. is_string_key k \<and> k \<noteq> proto_key \<and>
               map_of (snd (next_id s, [] :: fields)) k = None"
    using assms(4) by (auto simp add: image_iff)
  have rv: "\<And>k v. restored_value ?s1 k v = restored_value s k v"
    by (simp add: restored_value_def)
  from set_each_fields [OF p1 p2 p3 p4 p5, of "snd d"] obtain s' fs' where
    r1: "set_each (record_arg (snd d)) ?ks ?s1 = Inr s'" and
    r2: "priv_store s' = Some (fst (next_id s, [] :: fields), snd (next_id s, [] :: fields) @ fs')" and
    r2p: "store_proto s' = ObjectPrototype" and
    r3: "erase_fields fs' = map (\<lambda>k. (k, erase (restored_value ?s1 k (field_value (snd d) k)))) ?ks" and
    r4: "ids_fields fs' \<subseteq> {next_id ?s1 ..< next_id s'}" and
    r5: "next_id ?s1 \<le> next_id s'" and
    r6: "priv_listeners s' = Some ls" and
    r7: "priv_default s' = priv_default ?s1" and
    r7f: "fn_call s' = fn_call ?s1" and
    r8: "map fst (calls s') = map fst (calls ?s1) @
             concat (map (\<lambda>k. if strict_eq (restored_value ?s1 k (field_value (snd d) k))
                                            (Object_prototype_get k) then []
                               else map cb (filter (\<lambda>l. key l = k) ls)) ?ks)"
    by blast
  have q3: "erase_fields fs' = map (\<lambda>p. (fst p, erase (restored_value s (fst p) (snd p))))
                                  (filter (\<lambda>p. is_string_key (fst p)) (snd d))"
    using r3 string_fields_map [OF assms(3), of "\<lambda>k v. (k, erase (restored_value s k v))"]
    by (simp add: rv)
  have q8: "map fst (calls s') = map fst (calls s) @
             concat (map (\<lambda>p. if strict_eq (restored_value s (fst p) (snd p))
                                            (Object_prototype_get (fst p)) then []
                               else map cb (filter (\<lambda>l. key l = fst p) ls))
                         (filter (\<lambda>p. is_string_key (fst p)) (snd d)))"
    using r8 string_fields_map [OF assms(3),
        of "\<lambda>k v. if strict_eq (restored_value s k v) (Object_prototype_get k) then []
                   else map cb (filter (\<lambda>l. key l = k) ls)"]
    by (simp add: rv)
  have q1: "restoreDefault dd s = Inr s'" using run r1 by simp
  have q2: "priv_store s' = Some (next_id s, fs')" using r2 by simp
  have q4: "ids_fields fs' \<subseteq> {Suc (next_id s) ..< next_id s'}" using r4 by simp
  have q5: "next_id s < next_id s'" using r5 by simp
  have q7: "priv_default s' = priv_default s" using r7 by simp
  have q7f: "fn_call s' = fn_call s" using r7f by simp
  from q1 q2 r2p q3 q4 q5 r6 q7 q7f q8 show ?thesis by blast
qed












text \<open>The allocation invariant holds for a new store and is kept by the operations.\<close>

lemma allocated_initial: "allocated (initial n)"
  by (simp add: allocated_def held_ids_def initial_def)

lemma notify_each_frame:
  "notify_each keys ls s = Inr s' \<Longrightarrow> \<exists>c. s' = s\<lparr>calls := c\<rparr>"
proof (induction ls arbitrary: s)
  case Nil
  then have "s' = s\<lparr>calls := calls s\<rparr>" by simp
  then show ?case by blast
next
  case (Cons v vs)
  show ?case
  proof (cases "key v \<in> set keys")
    case True
    with Cons.prems obtain x where
      "notify_each keys vs (s\<lparr>calls := calls s @ [(cb v, x)]\<rparr>) = Inr s'"
      by (auto simp add: and_then_def split: sum.splits)
    from Cons.IH [OF this] obtain c where "s' = s\<lparr>calls := calls s @ [(cb v, x)]\<rparr>\<lparr>calls := c\<rparr>"
      by blast
    then have "s' = s\<lparr>calls := c\<rparr>" by simp
    then show ?thesis by blast
  next
    case False
    with Cons show ?thesis by simp
  qed
qed

lemma notify_frame:
  assumes "priv_notifyListeners keys s = Inr s'"
  shows "held_ids s' = held_ids s" and "next_id s' = next_id s"
    and "priv_listeners s' = priv_listeners s" and "priv_store s' = priv_store s"
proof -
  from assms obtain ls where "notify_each keys ls s = Inr s'"
    by (auto simp add: priv_notifyListeners_def split: option.splits)
  from notify_each_frame [OF this] obtain c where s': "s' = s\<lparr>calls := c\<rparr>" by blast
  show "held_ids s' = held_ids s" using s' by (simp add: held_ids_def)
  show "next_id s' = next_id s" using s' by simp
  show "priv_listeners s' = priv_listeners s" using s' by simp
  show "priv_store s' = priv_store s" using s' by simp
qed

lemma ids_fields_assign: "ids_fields (assign fs k v) \<subseteq> ids_fields fs \<union> ids v"
  by (induction fs k v rule: assign.induct) auto

lemma obj_write_ids:
  "obj_write fs p k v = (fs', p') \<Longrightarrow> ids_fields fs' \<union> ids p' \<subseteq> ids_fields fs \<union> ids p \<union> ids v"
  using ids_fields_assign [of fs "ToPropertyKey k" v]
  by (auto simp add: obj_write_def split: if_splits)

lemma allocated_clearStore: "allocated s \<Longrightarrow> allocated (clearStore s)"
  by (auto simp add: allocated_def held_ids_def clearStore_def new_object_def store_replace_def
      Let_def less_Suc_eq split: option.splits)

lemma allocated_destroy: "allocated s \<Longrightarrow> destroy ty k s = Inr (r, s') \<Longrightarrow> allocated s'"
proof -
  have sub: "\<And>fs key. ids_fields (filter (\<lambda>p. fst p \<noteq> key) fs) \<subseteq> ids_fields fs"
  proof -
    fix fs :: fields and key show "ids_fields (filter (\<lambda>p. fst p \<noteq> key) fs) \<subseteq> ids_fields fs"
      by (induction fs) auto
  qed
  assume a: "allocated s" and d: "destroy ty k s = Inr (r, s')"
  show "allocated s'"
  proof (cases ty)
    case Record_type
    with d obtain ob where ob: "priv_store s = Some ob"
      and s': "s' = s\<lparr>priv_store := Some (fst ob, filter (\<lambda>p. fst p \<noteq>
           ToPropertyKey (case k of None \<Rightarrow> KStr ''undefined'' | Some x \<Rightarrow> x)) (snd ob))\<rparr>"
      by (auto simp add: destroy_def prop_delete_def split: option.splits)
    show ?thesis using a ob sub unfolding s' allocated_def held_ids_def
      by (auto split: option.splits)
  next
    case Store_type
    with d have "s' = s\<lparr>priv_store := None, priv_listeners := None, priv_default := None\<rparr>"
      by (simp add: destroy_def)
    with a show ?thesis by (auto simp add: allocated_def held_ids_def)
  qed
qed

lemma allocated_subscribe: "allocated s \<Longrightarrow> subscribe k c s = Inr s' \<Longrightarrow> allocated s'"
  by (auto simp add: allocated_def held_ids_def subscribe_def priv_removeListener_def
      priv_addNewListener_def and_then_def split: option.splits)

lemma allocated_unsubscribe: "allocated s \<Longrightarrow> unsubscribe k c s = Inr s' \<Longrightarrow> allocated s'"
  by (auto simp add: allocated_def held_ids_def unsubscribe_def priv_removeListener_def
      split: option.splits)

lemma allocated_clone_obj:
  assumes "allocated s" and "clone_obj ob s = (copy, s')"
  shows "\<forall>j\<in>ids (Obj (fst copy) (snd copy)). j < next_id s'"
    and "\<forall>j\<in>held_ids s. j < next_id s'"
    and "held_ids s' = held_ids s"
proof -
  have r: "fst copy < next_id s'" by (rule clone_obj_props(5) [OF assms(2)])
  have f: "ids_fields (snd copy) \<subseteq> {Suc (fst copy) ..< next_id s'}"
    by (rule clone_obj_props(4) [OF assms(2)])
  show "\<forall>j\<in>ids (Obj (fst copy) (snd copy)). j < next_id s'"
    using r f by auto
  have "next_id s \<le> fst copy" using clone_obj_props(3) [OF assms(2)] by (simp del: top_id.simps)
  with r have "next_id s \<le> next_id s'" by simp
  with assms(1) show "\<forall>j\<in>held_ids s. j < next_id s'" by (auto simp add: allocated_def)
  show "held_ids s' = held_ids s"
    using clone_obj_frame(3,4,5) [OF assms(2)] by (simp add: held_ids_def)
qed

lemma allocated_setAll: "allocated s \<Longrightarrow> allocated (setAll d s)"
proof -
  assume a: "allocated s"
  obtain copy s0 where co: "clone_obj d s = (copy, s0)" by (cases "clone_obj d s")
  have "held_ids (store_replace copy s0) \<subseteq> ids (Obj (fst copy) (snd copy)) \<union> held_ids s0"
    by (auto simp add: held_ids_def store_replace_def split: option.splits)
  with allocated_clone_obj [OF a co] have "\<forall>j\<in>held_ids (store_replace copy s0). j < next_id s0"
    by auto
  then show ?thesis using co by (simp add: setAll_def allocated_def store_replace_def)
qed

lemma allocated_configureDefault: "allocated s \<Longrightarrow> allocated (configureDefault d s)"
proof -
  assume a: "allocated s"
  obtain copy s0 where co: "clone_obj d s = (copy, s0)" by (cases "clone_obj d s")
  have "held_ids (s0\<lparr>priv_default := Some copy\<rparr>) \<subseteq> ids (Obj (fst copy) (snd copy)) \<union> held_ids s0"
    by (auto simp add: held_ids_def split: option.splits)
  with allocated_clone_obj [OF a co] have "\<forall>j\<in>held_ids (s0\<lparr>priv_default := Some copy\<rparr>). j < next_id s0"
    by auto
  then show ?thesis using co by (simp add: configureDefault_def allocated_def)
qed

lemma allocated_priv_set_key:
  assumes "allocated s" and "priv_set (key_arg k) p s = Inr s'"
  shows "allocated s'"
proof -
  from assms(2) obtain ob where ob: "priv_store s = Some ob"
    by (cases "priv_store s")
       (simp_all add: priv_set_def not_array_key_arg isRecordKey_key_arg)
  let ?old = "obj_read (fn_prop s) (snd ob) (store_proto s) k"
  let ?new = "if isCallBack p then call_setter s p ?old else setter_value p"
  obtain copy n where c: "clone_from ?new (max (next_id s) (top_id ?new)) = (copy, n)"
    by (cases "clone_from ?new (max (next_id s) (top_id ?new))")
  obtain fs' p' where w: "obj_write (snd ob) (store_proto s) k copy = (fs', p')"
    by (cases "obj_write (snd ob) (store_proto s) k copy")
  let ?s1 = "s\<lparr>next_id := n\<rparr>"
  let ?s2 = "s\<lparr>next_id := n, priv_store := Some (fst ob, fs'), store_proto := p'\<rparr>"
  have cl: "clone ?new s = (copy, ?s1)" using c by (simp add: clone_def)
  have sw: "store_write ob k copy ?s1 = ?s2" using w by (simp add: store_write_def)
  have res: "s' = ?s2 \<or> priv_notifyListeners [k] ?s2 = Inr s'"
  proof (cases "isCallBack p")
    case True
    with assms(2) ob cl sw show ?thesis
      by (auto simp add: priv_set_def not_array_key_arg isRecordKey_key_arg as_key_key_arg
          Let_def split: if_splits)
  next
    case False
    with assms(2) ob cl sw show ?thesis
      by (auto simp add: priv_set_def not_array_key_arg isRecordKey_key_arg as_key_key_arg
          Let_def split: if_splits)
  qed
  then have fr: "held_ids s' = held_ids ?s2 \<and> next_id s' = n"
    using notify_frame(1,2) [of "[k]" ?s2 s'] by auto
  have mn: "max (next_id s) (top_id ?new) \<le> n"
    using clone_mono(1) [of "max (next_id s) (top_id ?new)" ?new] c by simp
  have ic: "ids copy \<subseteq> {max (next_id s) (top_id ?new) ..< n}"
    using clone_ids(1) [of ?new "max (next_id s) (top_id ?new)"] c by simp
  have h2: "held_ids ?s2 \<subseteq> held_ids s \<union> ids copy"
    using obj_write_ids [OF w] ob by (auto simp add: held_ids_def split: option.splits)
  have "\<And>j. j \<in> held_ids ?s2 \<Longrightarrow> j < n"
  proof -
    fix j assume "j \<in> held_ids ?s2"
    with h2 have "j \<in> held_ids s \<or> j \<in> ids copy" by auto
    then show "j < n"
    proof
      assume "j \<in> held_ids s"
      then have "j < next_id s" using assms(1) by (simp add: allocated_def)
      with mn show ?thesis by simp
    next
      assume "j \<in> ids copy"
      with ic show ?thesis by auto
    qed
  qed
  with fr show ?thesis by (simp add: allocated_def)
qed

lemma allocated_priv_set_array:
  assumes "allocated s" and "priv_set (JArray keys) p s = Inr s'"
  shows "allocated s'"
proof -
  let ?s1 = "s\<lparr>next_id := Suc (next_id s)\<rparr>"
  from assms(2) obtain data where g: "get (JArray keys) s = Inr (data, ?s1)"
    by (auto simp add: priv_set_def get_def new_object_def and_then_def Let_def split: sum.splits)
  have cb: "isCallBack p"
    using assms(2) g by (auto simp add: priv_set_def and_then_def split: if_splits)
  let ?m = "spread (store_fields ?s1) (own_props (call_setter ?s1 p data))"
  obtain merged s2 where no: "new_object ?m ?s1 = (merged, s2)" by (cases "new_object ?m ?s1")
  obtain copy s3 where co: "clone_obj merged s2 = (copy, s3)" by (cases "clone_obj merged s2")
  have nt: "priv_notifyListeners keys (store_replace copy s3) = Inr s'"
    using assms(2) g cb no co by (simp add: priv_set_def and_then_def)
  have s2: "held_ids s2 = held_ids s \<and> next_id s \<le> next_id s2"
    using no by (auto simp add: new_object_def Let_def held_ids_def)
  then have a2: "allocated s2" using assms(1) by (auto simp add: allocated_def)
  have "held_ids (store_replace copy s3) \<subseteq> ids (Obj (fst copy) (snd copy)) \<union> held_ids s3"
    by (auto simp add: held_ids_def store_replace_def split: option.splits)
  with allocated_clone_obj [OF a2 co]
  have "\<forall>j\<in>held_ids (store_replace copy s3). j < next_id (store_replace copy s3)"
    by (auto simp add: store_replace_def)
  with notify_frame(1,2) [OF nt] show ?thesis by (simp add: allocated_def)
qed

lemma allocated_set_each:
  "allocated s \<Longrightarrow> set_each data ks s = Inr s' \<Longrightarrow> allocated s'"
proof (induction ks arbitrary: s)
  case Nil
  then show ?case by simp
next
  case (Cons k ks)
  from Cons.prems(2) obtain s1 where
    a: "priv_set (key_arg k) (data_at data k) s = Inr s1" and b: "set_each data ks s1 = Inr s'"
    by (auto simp add: and_then_def split: sum.splits)
  from allocated_priv_set_key [OF Cons.prems(1) a] have "allocated s1" .
  from Cons.IH [OF this b] show ?case .
qed

lemma key_arg_as_key: "isRecordKey d \<Longrightarrow> key_arg (as_key d) = d"
  by (cases d) simp_all

lemma array_as_array: "Array_isArray d \<Longrightarrow> d = JArray (as_array d)"
  by (cases d) simp_all

lemma allocated_set_op:
  assumes "allocated s" and "set_op d p s = Inr s'"
  shows "allocated s'"
proof (cases "Array_isArray d")
  case True
  then have "priv_set (JArray (as_array d)) p s = Inr s'"
    using assms(2) array_as_array [OF True] by (simp add: set_op_def)
  from allocated_priv_set_array [OF assms(1) this] show ?thesis .
next
  case False
  show ?thesis
  proof (cases "isRecord d")
    case True
    with False assms(2) have "set_each (as_record d) (Object_keys (as_record d)) s = Inr s'"
      by (simp add: set_op_def)
    from allocated_set_each [OF assms(1) this] show ?thesis .
  next
    case nr: False
    show ?thesis
    proof (cases "isRecordKey d")
      case True
      with False nr assms(2) have "priv_set (key_arg (as_key d)) p s = Inr s'"
        by (simp add: set_op_def key_arg_as_key)
      from allocated_priv_set_key [OF assms(1) this] show ?thesis .
    next
      case False
      with \<open>\<not> Array_isArray d\<close> nr assms show ?thesis by (simp add: set_op_def)
    qed
  qed
qed

lemma allocated_restoreDefault:
  assumes "allocated s" and "restoreDefault dd s = Inr s'"
  shows "allocated s'"
proof -
  have c: "allocated (clearStore s)" by (rule allocated_clearStore [OF assms(1)])
  have n: "\<And>t e t'. allocated t \<Longrightarrow> new_object [] t = (e, t') \<Longrightarrow> allocated t'"
    by (auto simp add: new_object_def Let_def allocated_def held_ids_def less_Suc_eq)
  from assms(2) obtain t r where "allocated t" and "set_op (JObject r) (Lit Undefined) t = Inr s'"
    using c n [OF c]
    by (auto simp add: restoreDefault_def Let_def split: option.splits prod.splits)
  then show ?thesis by (rule allocated_set_op)
qed

subsection \<open>Listener registration\<close>

text \<open>
  Claim C2, evaluated on the code. Two distinct callbacks 1 and 2 are subscribed to the
  same key \<open>a\<close> of a new store. The second \<open>subscribe\<close> removes the registration of
  callback 1, because \<open>_removeListener\<close> keeps an entry only if its key differs from the
  given key and its callback differs from the given callback: the two registrations do
  not coexist, only \<open>(a, 2)\<close> is left.
\<close>

theorem subscribe_same_key_evicts_other_callback:
  "and_then (subscribe (KStr ''a'') 1 (initial 0)) (subscribe (KStr ''a'') 2) =
     Inr ((initial 0)\<lparr>priv_listeners := Some [\<lparr>key = KStr ''a'', cb = 2\<rparr>]\<rparr>)"
  by (simp add: subscribe_def initial_def priv_removeListener_def priv_addNewListener_def
      and_then_def)

text \<open>
  Claim C4. On a store whose listener list is not null, \<open>unsubscribe(key, cb)\<close> keeps a
  listener entry only when its key differs from \<open>key\<close> and its callback differs from
  \<open>cb\<close>, and changes nothing else. In particular, after subscribing callback \<open>c\<close> to key
  \<open>a\<close> and then to key \<open>b\<close>, unsubscribing \<open>(a, c)\<close> leaves no registration of \<open>c\<close> at all.
\<close>

theorem unsubscribe_removes_key_or_callback:
  assumes "priv_listeners s = Some ls"
  shows "unsubscribe k c s =
           Inr (s\<lparr>priv_listeners := Some (filter (\<lambda>i. key i \<noteq> k \<and> cb i \<noteq> c) ls)\<rparr>) \<and>
         (\<exists>s1 s2 s3 ls3. subscribe a c s = Inr s1 \<and> subscribe b c s1 = Inr s2 \<and>
            unsubscribe a c s2 = Inr s3 \<and> priv_listeners s3 = Some ls3 \<and>
            c \<notin> cb ` set ls3)"
  using assms
  by (auto simp add: unsubscribe_def subscribe_def priv_removeListener_def
      priv_addNewListener_def and_then_def)

theorem unsubscribe_removes_key_or_callback_witness:
  "priv_listeners ((initial 0)\<lparr>priv_listeners :=
       Some [\<lparr>key = KStr ''a'', cb = 1\<rparr>, \<lparr>key = KStr ''b'', cb = 1\<rparr>,
             \<lparr>key = KStr ''a'', cb = 2\<rparr>, \<lparr>key = KStr ''c'', cb = 3\<rparr>]\<rparr>) =
     Some [\<lparr>key = KStr ''a'', cb = 1\<rparr>, \<lparr>key = KStr ''b'', cb = 1\<rparr>,
           \<lparr>key = KStr ''a'', cb = 2\<rparr>, \<lparr>key = KStr ''c'', cb = 3\<rparr>] \<and>
   unsubscribe (KStr ''a'') 1 ((initial 0)\<lparr>priv_listeners :=
       Some [\<lparr>key = KStr ''a'', cb = 1\<rparr>, \<lparr>key = KStr ''b'', cb = 1\<rparr>,
             \<lparr>key = KStr ''a'', cb = 2\<rparr>, \<lparr>key = KStr ''c'', cb = 3\<rparr>]\<rparr>) =
     Inr ((initial 0)\<lparr>priv_listeners := Some [\<lparr>key = KStr ''c'', cb = 3\<rparr>]\<rparr>)"
  using unsubscribe_removes_key_or_callback
    [of "(initial 0)\<lparr>priv_listeners :=
       Some [\<lparr>key = KStr ''a'', cb = 1\<rparr>, \<lparr>key = KStr ''b'', cb = 1\<rparr>,
             \<lparr>key = KStr ''a'', cb = 2\<rparr>, \<lparr>key = KStr ''c'', cb = 3\<rparr>]\<rparr>"
        "[\<lparr>key = KStr ''a'', cb = 1\<rparr>, \<lparr>key = KStr ''b'', cb = 1\<rparr>,
          \<lparr>key = KStr ''a'', cb = 2\<rparr>, \<lparr>key = KStr ''c'', cb = 3\<rparr>]"
        "KStr ''a''" 1]
  by simp

subsection \<open>Arguments that are no key\<close>

text \<open>
  Claim C10. When the first argument of \<open>set\<close> is neither an array, nor a non-array
  object, nor a string, number or symbol, \<open>set\<close> does nothing: the state, the listeners
  and the record of callback calls are unchanged, and the store is returned.
\<close>

theorem set_ignores_other_arguments:
  "\<not> Array_isArray data \<Longrightarrow> \<not> isRecord data \<Longrightarrow> \<not> isRecordKey data \<Longrightarrow>
   set_op data setState s = Inr s"
  by (simp add: set_op_def)

theorem set_ignores_other_arguments_witness:
  "\<not> Array_isArray JUndefined \<and> \<not> isRecord JUndefined \<and> \<not> isRecordKey JUndefined \<and>
   \<not> Array_isArray JNull \<and> \<not> isRecord JNull \<and> \<not> isRecordKey JNull \<and>
   \<not> Array_isArray (JBool True) \<and> \<not> isRecord (JBool True) \<and> \<not> isRecordKey (JBool True) \<and>
   set_op JUndefined (Lit (Num 1)) (initial 0) = Inr (initial 0) \<and>
   set_op JNull (Lit (Num 1)) (initial 0) = Inr (initial 0) \<and>
   set_op (JBool True) (Lit (Num 1)) (initial 0) = Inr (initial 0)"
  using set_ignores_other_arguments [of JUndefined "Lit (Num 1)" "initial 0"]
    set_ignores_other_arguments [of JNull "Lit (Num 1)" "initial 0"]
    set_ignores_other_arguments [of "JBool True" "Lit (Num 1)" "initial 0"]
  by (simp add: isRecord_def)

subsection \<open>Mass update\<close>



subsection \<open>Replacing the whole state\<close>

text \<open>
  Claim C7. \<open>setAll(data)\<close> replaces the live state by a deep copy of \<open>data\<close>: the new
  state is structurally equal to \<open>data\<close> and shares no object with it. No listener
  callback is called, whatever listeners are registered; listeners and default snapshot
  are untouched.
\<close>

theorem setAll_replaces_without_notifying:
  "\<exists>copy. priv_store (setAll data s) = Some copy \<and>
     deep_eq (Obj (fst copy) (snd copy)) (Obj (fst data) (snd data)) \<and>
     ids (Obj (fst copy) (snd copy)) \<inter> ids (Obj (fst data) (snd data)) = {} \<and>
     calls (setAll data s) = calls s \<and>
     priv_listeners (setAll data s) = priv_listeners s \<and>
     priv_default (setAll data s) = priv_default s"
proof -
  let ?n = "max (next_id s) (top_id (Obj (fst data) (snd data)))"
  obtain fs' n' where c: "clone_fields (snd data) (Suc ?n) = (fs', n')"
    by (cases "clone_fields (snd data) (Suc ?n)")
  have e: "erase_fields fs' = erase_fields (snd data)"
    using clone_erase(2) [of "snd data" "Suc ?n"] c by simp
  have i: "ids_fields fs' \<subseteq> {Suc ?n ..< n'}"
    using clone_ids(2) [of "snd data" "Suc ?n"] c by simp
  have d: "ids (Obj ?n fs') \<inter> ids (Obj (fst data) (snd data)) = {}"
  proof -
    have "\<And>j. j \<in> ids (Obj ?n fs') \<Longrightarrow> top_id (Obj (fst data) (snd data)) \<le> j"
    proof -
      fix j assume "j \<in> ids (Obj ?n fs')"
      then have "j = ?n \<or> j \<in> ids_fields fs'" by simp
      moreover have "j \<in> ids_fields fs' \<Longrightarrow> Suc ?n \<le> j"
        using i by (meson atLeastLessThan_iff subsetD)
      ultimately have "?n \<le> j" by (auto simp del: top_id.simps)
      then show "top_id (Obj (fst data) (snd data)) \<le> j" by linarith
    qed
    moreover have "\<And>j. j \<in> ids (Obj (fst data) (snd data)) \<Longrightarrow> j < top_id (Obj (fst data) (snd data))"
      by (rule ids_below_top(1))
    ultimately show ?thesis by fastforce
  qed
  have p: "setAll data s = s\<lparr>next_id := n', priv_store := Some (?n, fs'),
                              store_proto := ObjectPrototype\<rparr>"
    using c by (simp add: setAll_def clone_obj_def store_replace_def Let_def)
  show ?thesis
    apply (rule exI [of _ "(?n, fs')"])
    using e d by (simp add: p deep_eq_def)
qed

subsection \<open>Removing a field\<close>

text \<open>
  Claim C3 as stated fails: on a new store, which has no field \<open>missing\<close>,
  \<open>destroy('record', 'missing')\<close> returns true, since \<open>delete\<close> of a property that does
  not exist evaluates to true.
\<close>

theorem destroy_record_absent_key_returns_true:
  "map_of (store_fields (initial 0)) (ToPropertyKey (KStr ''missing'')) = None \<and>
   destroy Record_type (Some (KStr ''missing'')) (initial 0) = Inr (True, initial 0)"
  by (simp add: destroy_def initial_def prop_delete_def store_fields_def)

text \<open>
  Claim C3, amended. On a store whose state is not null (and whose state object has no
  function object as its prototype), \<open>destroy('record', k)\<close> returns true whether or not
  \<open>k\<close> was present. Afterwards the state object has no own property \<open>k\<close>, so \<open>get(k)\<close>
  returns what the state object inherits under that name: on the ordinary state object
  this is \<open>undefined\<close>, unless \<open>k\<close> names a property of \<open>Object.prototype\<close> (\<open>constructor\<close>,
  \<open>toString\<close>, \<open>__proto__\<close> and the like), and then it is that inherited value.
\<close>

theorem destroy_record_returns_true:
  assumes "priv_store s = Some ob" and "\<not> is_function (store_proto s)"
  shows "\<exists>s'. destroy Record_type (Some k) s = Inr (True, s') \<and>
           map_of (store_fields s') (ToPropertyKey k) = None \<and>
           get (key_arg k) s' = Inr (inherited (fn_prop s) (store_proto s) (ToPropertyKey k), s') \<and>
           (store_proto s = ObjectPrototype \<longrightarrow>
              get (key_arg k) s' = Inr (Object_prototype_get (ToPropertyKey k), s'))"
proof -
  let ?fs = "filter (\<lambda>p. fst p \<noteq> ToPropertyKey k) (snd ob)"
  let ?s' = "s\<lparr>priv_store := Some (fst ob, ?fs)\<rparr>"
  have d: "destroy Record_type (Some k) s = Inr (True, ?s')"
    using assms(1) by (simp add: destroy_def prop_delete_def)
  have a: "map_of (store_fields ?s') (ToPropertyKey k) = None"
    by (simp add: store_fields_def map_of_filter_out)
  have g: "get (key_arg k) ?s' = Inr (inherited (fn_prop s) (store_proto s) (ToPropertyKey k), ?s')"
    using obj_read_absent [of ?fs k "fn_prop s" "store_proto s"]
    by (simp add: get_def not_array_key_arg as_key_key_arg priv_get_def and_then_def
        map_of_filter_out)
  from d a g show ?thesis by auto
qed

theorem destroy_record_returns_true_witness:
  "priv_store ((initial 0)\<lparr>priv_store := Some (0, [(KStr ''present'', Num 1)])\<rparr>) =
     Some (0, [(KStr ''present'', Num 1)]) \<and>
   \<not> is_function (store_proto ((initial 0)\<lparr>priv_store := Some (0, [(KStr ''present'', Num 1)])\<rparr>)) \<and>
   destroy Record_type (Some (KStr ''present''))
     ((initial 0)\<lparr>priv_store := Some (0, [(KStr ''present'', Num 1)])\<rparr>) =
     Inr (True, initial 0) \<and>
   get (JString ''present'') (initial 0) = Inr (Undefined, initial 0)"
proof -
  let ?S = "(initial 0)\<lparr>priv_store := Some (0, [(KStr ''present'', Num 1)])\<rparr>"
  have h1: "priv_store ?S = Some (0, [(KStr ''present'', Num 1)])" by simp
  have h2: "\<not> is_function (store_proto ?S)" by (simp add: initial_def)
  have p: "store_proto ?S = ObjectPrototype" by (simp add: initial_def)
  have d: "destroy Record_type (Some (KStr ''present'')) ?S = Inr (True, initial 0)"
    by (simp add: destroy_def prop_delete_def initial_def)
  have u: "Object_prototype_get (ToPropertyKey (KStr ''present'')) = Undefined"
    by (simp add: Object_prototype_get_def proto_key_def Object_prototype_names_def)
  from destroy_record_returns_true [OF h1 h2, of "KStr ''present''"] d p u
  have "get (JString ''present'') (initial 0) = Inr (Undefined, initial 0)" by auto
  with h1 h2 d show ?thesis by blast
qed

subsection \<open>Notification on a single-key set\<close>

text \<open>
  Claim C5 as stated fails in its second half. On a new store the key \<open>toString\<close> was
  never set, yet its prior value is not \<open>undefined\<close>: the state object is an ordinary
  object and inherits \<open>toString\<close> from \<open>Object.prototype\<close>, as \<open>get\<close> shows. So
  \<open>set('toString', undefined)\<close> finds a new value different from the old one and calls
  the listener on \<open>toString\<close>.
\<close>

theorem set_single_key_inherited_prior_value:
  "map_of (store_fields ((initial 0)\<lparr>priv_listeners := Some [\<lparr>key = KStr ''toString'', cb = 7\<rparr>]\<rparr>))
      (ToPropertyKey (KStr ''toString'')) = None \<and>
   get (JString ''toString'') ((initial 0)\<lparr>priv_listeners := Some [\<lparr>key = KStr ''toString'', cb = 7\<rparr>]\<rparr>) =
     Inr (Builtin ''toString'', (initial 0)\<lparr>priv_listeners := Some [\<lparr>key = KStr ''toString'', cb = 7\<rparr>]\<rparr>) \<and>
   set_op (JString ''toString'') (Lit Undefined)
     ((initial 0)\<lparr>priv_listeners := Some [\<lparr>key = KStr ''toString'', cb = 7\<rparr>]\<rparr>) =
     Inr ((initial 0)\<lparr>priv_listeners := Some [\<lparr>key = KStr ''toString'', cb = 7\<rparr>],
                     priv_store := Some (0, [(KStr ''toString'', Undefined)]),
                     calls := [(7, Undefined)]\<rparr>)"
  by (simp add: set_op_def isRecord_def priv_set_def clone_def store_write_def obj_write_def
      obj_read_def priv_notifyListeners_def priv_get_def get_def and_then_def
      Object_prototype_get_def proto_key_def Object_prototype_names_def
      store_fields_def initial_def Let_def)

text \<open>
  Claim C5, amended. On a live store (whose state object has no function object as its
  prototype), a single-key \<open>set(key, v)\<close> or \<open>set(key, fn)\<close> calls the listeners
  registered on \<open>key\<close> (each once, in registration order, with the value then read
  under \<open>key\<close>) exactly when the new value is not \<open>===\<close> the old value \<open>this._store[key]\<close>,
  and calls nothing otherwise; a function given as second argument is called with the
  old value to give the new one. When the state object is ordinary and does not own
  \<open>key\<close>, the old value is what \<open>Object.prototype\<close> gives under that name; for a name
  \<open>Object.prototype\<close> does not have it is \<open>undefined\<close>, and then every new value other
  than \<open>undefined\<close> notifies.
\<close>

theorem set_single_key_notifies_iff_changed:
  assumes "priv_store s = Some ob" and "priv_listeners s = Some ls"
    and "\<not> is_function (store_proto s)"
  shows "\<exists>s'. set_op (key_arg k) p s = Inr s' \<and>
           calls s' = calls s @
             (if strict_eq (if isCallBack p
                            then call_setter s p (obj_read (fn_prop s) (snd ob) (store_proto s) k)
                            else setter_value p)
                   (obj_read (fn_prop s) (snd ob) (store_proto s) k)
              then []
              else map (\<lambda>l. (cb l, obj_read (fn_prop s') (store_fields s') (store_proto s') k))
                       (filter (\<lambda>l. key l = k) ls)) \<and>
           (store_proto s = ObjectPrototype \<and> map_of (snd ob) (ToPropertyKey k) = None \<longrightarrow>
              obj_read (fn_prop s) (snd ob) (store_proto s) k =
                Object_prototype_get (ToPropertyKey k)) \<and>
           (store_proto s = ObjectPrototype \<and> map_of (snd ob) (ToPropertyKey k) = None \<and>
            Object_prototype_get (ToPropertyKey k) = Undefined \<and>
            (if isCallBack p then call_setter s p Undefined else setter_value p) \<noteq> Undefined \<longrightarrow>
              calls s' = calls s @
                map (\<lambda>l. (cb l, obj_read (fn_prop s') (store_fields s') (store_proto s') k))
                    (filter (\<lambda>l. key l = k) ls))"
proof -
  let ?old = "obj_read (fn_prop s) (snd ob) (store_proto s) k"
  let ?new = "if isCallBack p then call_setter s p ?old else setter_value p"
  obtain copy n where c: "clone_from ?new (max (next_id s) (top_id ?new)) = (copy, n)"
    by (cases "clone_from ?new (max (next_id s) (top_id ?new))")
  obtain fs' p' where w: "obj_write (snd ob) (store_proto s) k copy = (fs', p')"
    by (cases "obj_write (snd ob) (store_proto s) k copy")
  let ?cs = "if strict_eq ?new ?old then []
             else map (\<lambda>l. (cb l, obj_read (fn_prop s) fs' p' k)) (filter (\<lambda>l. key l = k) ls)"
  let ?s' = "s\<lparr>next_id := n, priv_store := Some (fst ob, fs'), store_proto := p',
               calls := calls s @ ?cs\<rparr>"
  have run0: "priv_set (key_arg k) p s = Inr ?s'"
    by (rule priv_set_key_live [OF assms(1,2) refl refl c w])
  have run: "set_op (key_arg k) p s = Inr ?s'"
    using run0 by (simp add: set_op_def not_array_key_arg not_record_key_arg isRecordKey_key_arg)
  have rd: "obj_read (fn_prop ?s') (store_fields ?s') (store_proto ?s') k = obj_read (fn_prop s) fs' p' k"
    by (simp add: store_fields_def)
  have cl: "calls ?s' = calls s @
             (if strict_eq ?new ?old then []
              else map (\<lambda>l. (cb l, obj_read (fn_prop ?s') (store_fields ?s') (store_proto ?s') k))
                       (filter (\<lambda>l. key l = k) ls))"
    unfolding rd by simp
  have u: "store_proto s = ObjectPrototype \<and> map_of (snd ob) (ToPropertyKey k) = None \<Longrightarrow>
           ?old = Object_prototype_get (ToPropertyKey k)"
    by (simp add: obj_read_def)
  have nu: "store_proto s = ObjectPrototype \<and> map_of (snd ob) (ToPropertyKey k) = None \<and>
            Object_prototype_get (ToPropertyKey k) = Undefined \<and>
            (if isCallBack p then call_setter s p Undefined else setter_value p) \<noteq> Undefined \<Longrightarrow>
            \<not> strict_eq ?new ?old"
  proof -
    assume a: "store_proto s = ObjectPrototype \<and> map_of (snd ob) (ToPropertyKey k) = None \<and>
            Object_prototype_get (ToPropertyKey k) = Undefined \<and>
            (if isCallBack p then call_setter s p Undefined else setter_value p) \<noteq> Undefined"
    then have o: "?old = Undefined" using u by simp
    with a have "?new \<noteq> Undefined" by (auto split: if_splits)
    with o show "\<not> strict_eq ?new ?old"
      by (simp add: strict_eq_sym [of _ Undefined] strict_eq_Undefined)
  qed
  show ?thesis
    apply (rule exI [of _ ?s'])
    apply (intro conjI impI)
       apply (rule run)
      apply (rule cl)
     apply (erule u)
    using cl nu apply presburger
    done
qed

theorem set_single_key_notifies_iff_changed_witness:
  "priv_store ((initial 0)\<lparr>priv_listeners := Some [\<lparr>key = KStr ''x'', cb = 7\<rparr>]\<rparr>) = Some (0, []) \<and>
   priv_listeners ((initial 0)\<lparr>priv_listeners := Some [\<lparr>key = KStr ''x'', cb = 7\<rparr>]\<rparr>) =
     Some [\<lparr>key = KStr ''x'', cb = 7\<rparr>] \<and>
   \<not> is_function (store_proto ((initial 0)\<lparr>priv_listeners := Some [\<lparr>key = KStr ''x'', cb = 7\<rparr>]\<rparr>)) \<and>
   (\<exists>s'. set_op (JString ''x'') (Lit (Num 5))
           ((initial 0)\<lparr>priv_listeners := Some [\<lparr>key = KStr ''x'', cb = 7\<rparr>]\<rparr>) = Inr s' \<and>
         map fst (calls s') = [7])"
proof -
  let ?S = "(initial 0)\<lparr>priv_listeners := Some [\<lparr>key = KStr ''x'', cb = 7\<rparr>]\<rparr>"
  have h1: "priv_store ?S = Some (0, [])" by (simp add: initial_def)
  have h2: "priv_listeners ?S = Some [\<lparr>key = KStr ''x'', cb = 7\<rparr>]" by simp
  have h3: "\<not> is_function (store_proto ?S)" by (simp add: initial_def)
  have c: "calls ?S = []" by (simp add: initial_def)
  have p: "store_proto ?S = ObjectPrototype" by (simp add: initial_def)
  have u: "Object_prototype_get (ToPropertyKey (KStr ''x'')) = Undefined"
    by (simp add: Object_prototype_get_def proto_key_def Object_prototype_names_def)
  from set_single_key_notifies_iff_changed [OF h1 h2 h3, of "KStr ''x''" "Lit (Num 5)"]
  obtain s' where
    r1: "set_op (key_arg (KStr ''x'')) (Lit (Num 5)) ?S = Inr s'" and
    r2: "store_proto ?S = ObjectPrototype \<and> map_of (snd (0 :: nat, [] :: fields)) (ToPropertyKey (KStr ''x'')) = None \<and>
            Object_prototype_get (ToPropertyKey (KStr ''x'')) = Undefined \<and>
            (if isCallBack (Lit (Num 5)) then call_setter ?S (Lit (Num 5)) Undefined
             else setter_value (Lit (Num 5))) \<noteq> Undefined \<longrightarrow>
              calls s' = calls ?S @
                map (\<lambda>l. (cb l, obj_read (fn_prop s') (store_fields s') (store_proto s') (KStr ''x'')))
                    (filter (\<lambda>l. key l = KStr ''x'') [\<lparr>key = KStr ''x'', cb = 7\<rparr>])"
    by blast
  have "map fst (calls s') = [7]" using r2 p u c by simp
  with r1 h1 h2 h3 show ?thesis by auto
qed

subsection \<open>The state after a mass update\<close>




subsection \<open>Restoring the default\<close>

text \<open>
  Claim C1 as stated fails. A store with one listener, callback 7 on key \<open>count\<close>, is
  restored from the record \<open>{count: 0}\<close>: \<open>restoreDefault\<close> clears the state and then
  calls \<open>set\<close> with the record, which goes through the notifying single-key setter. The
  old value of \<open>count\<close> is \<open>undefined\<close>, the new one is 0, so callback 7 is called with 0.
\<close>

theorem restoreDefault_notifies_counterexample:
  "restoreDefault (Some (100, [(KStr ''count'', Num 0)]))
     ((initial 0)\<lparr>priv_listeners := Some [\<lparr>key = KStr ''count'', cb = 7\<rparr>]\<rparr>) =
   Inr ((initial 0)\<lparr>priv_listeners := Some [\<lparr>key = KStr ''count'', cb = 7\<rparr>],
                   priv_store := Some (2, [(KStr ''count'', Num 0)]),
                   calls := [(7, Num 0)], next_id := 3\<rparr>)"
  by (simp add: restoreDefault_def clearStore_def new_object_def store_replace_def set_op_def
      isRecord_def Object_keys_def record_arg_def data_at_def priv_set_def clone_def
      store_write_def obj_write_def obj_read_def priv_notifyListeners_def priv_get_def
      and_then_def Object_prototype_get_def proto_key_def Object_prototype_names_def
      initial_def Let_def)

text \<open>
  Claim C1, amended. On a store whose listener list is not null, \<open>restoreDefault\<close> (with
  an explicit record, or without one from the configured default) does call listener
  callbacks. It clears the state and hands the record to \<open>set\<close>, which applies each
  string-named field, in order, through the notifying single-key setter; a
  function-valued field is called there as an updater. For a record with no field named
  \<open>__proto__\<close>, the listeners registered on a field's key are called, once each in
  registration order, exactly when the value the field ends with is not \<open>===\<close> the value
  the cleared state object has under that name, which is \<open>undefined\<close> except for the
  names of \<open>Object.prototype\<close>. In particular, when no field is a function or bears a name
  of \<open>Object.prototype\<close>, the listeners of exactly the fields whose value is not
  \<open>undefined\<close> are called. Listener callbacks, and functions found as field values, do
  not themselves call the store, so no other callback is called.
\<close>

theorem restoreDefault_notifies_listeners:
  assumes "priv_listeners s = Some ls"
    and "(case defaultData of Some x \<Rightarrow> Some x | None \<Rightarrow> priv_default s) = Some d"
    and "distinct (map fst (snd d))"
    and "proto_key \<notin> fst ` set (snd d)"
  shows "\<exists>s'. restoreDefault defaultData s = Inr s' \<and>
           map fst (calls s') = map fst (calls s) @
             concat (map (\<lambda>p. if strict_eq (restored_value s (fst p) (snd p))
                                            (Object_prototype_get (fst p)) then []
                               else map cb (filter (\<lambda>l. key l = fst p) ls))
                         (filter (\<lambda>p. is_string_key (fst p)) (snd d))) \<and>
           ((\<forall>p\<in>set (snd d). \<not> is_function (snd p) \<and> Object_prototype_get (fst p) = Undefined) \<longrightarrow>
              map fst (calls s') = map fst (calls s) @
                concat (map (\<lambda>p. if snd p = Undefined then []
                                  else map cb (filter (\<lambda>l. key l = fst p) ls))
                            (filter (\<lambda>p. is_string_key (fst p)) (snd d))))"
proof -
  let ?g = "\<lambda>p. if strict_eq (restored_value s (fst p) (snd p)) (Object_prototype_get (fst p))
                 then [] else map cb (filter (\<lambda>l. key l = fst p) ls)"
  let ?h = "\<lambda>p. if snd p = Undefined then [] else map cb (filter (\<lambda>l. key l = fst p) ls)"
  let ?fs = "filter (\<lambda>p. is_string_key (fst p)) (snd d)"
  from restoreDefault_live [OF assms] obtain s' where
    r1: "restoreDefault defaultData s = Inr s'" and
    r2: "map fst (calls s') = map fst (calls s) @ concat (map ?g ?fs)"
    by blast
  have simple: "map ?g ?fs = map ?h ?fs"
    if a: "\<forall>p\<in>set (snd d). \<not> is_function (snd p) \<and> Object_prototype_get (fst p) = Undefined"
  proof (rule map_cong [OF refl])
    fix p assume "p \<in> set ?fs"
    then have "p \<in> set (snd d)" by simp
    with a have "\<not> is_function (snd p)" and "Object_prototype_get (fst p) = Undefined" by auto
    then show "?g p = ?h p"
      by (simp add: restored_value_def strict_eq_sym [of _ Undefined] strict_eq_Undefined)
  qed
  have r3: "(\<forall>p\<in>set (snd d). \<not> is_function (snd p) \<and> Object_prototype_get (fst p) = Undefined) \<longrightarrow>
              map fst (calls s') = map fst (calls s) @ concat (map ?h ?fs)"
  proof
    assume a: "\<forall>p\<in>set (snd d). \<not> is_function (snd p) \<and> Object_prototype_get (fst p) = Undefined"
    show "map fst (calls s') = map fst (calls s) @ concat (map ?h ?fs)"
      using r2 by (simp only: simple [OF a])
  qed
  from r1 r2 r3 show ?thesis by blast
qed

theorem restoreDefault_notifies_listeners_witness:
  "priv_listeners ((initial 0)\<lparr>priv_listeners := Some [\<lparr>key = KStr ''count'', cb = 7\<rparr>]\<rparr>) =
     Some [\<lparr>key = KStr ''count'', cb = 7\<rparr>] \<and>
   distinct (map fst (snd (100 :: nat, [(KStr ''count'', Num 0)]))) \<and>
   proto_key \<notin> fst ` set (snd (100 :: nat, [(KStr ''count'', Num 0)])) \<and>
   (\<exists>s'. restoreDefault (Some (100, [(KStr ''count'', Num 0)]))
           ((initial 0)\<lparr>priv_listeners := Some [\<lparr>key = KStr ''count'', cb = 7\<rparr>]\<rparr>) = Inr s' \<and>
         map fst (calls s') = [7])"
proof -
  let ?S = "(initial 0)\<lparr>priv_listeners := Some [\<lparr>key = KStr ''count'', cb = 7\<rparr>]\<rparr>"
  let ?d = "(100 :: nat, [(KStr ''count'', Num 0)])"
  have h1: "priv_listeners ?S = Some [\<lparr>key = KStr ''count'', cb = 7\<rparr>]" by simp
  have h2: "(case Some ?d of Some x \<Rightarrow> Some x | None \<Rightarrow> priv_default ?S) = Some ?d" by simp
  have h3: "distinct (map fst (snd ?d))" by simp
  have h4: "proto_key \<notin> fst ` set (snd ?d)" by (simp add: proto_key_def)
  have c: "calls ?S = []" by (simp add: initial_def)
  have u: "Object_prototype_get (KStr ''count'') = Undefined"
    by (simp add: Object_prototype_get_def proto_key_def Object_prototype_names_def)
  from restoreDefault_notifies_listeners [OF h1 h2 h3 h4] obtain s' where
    r1: "restoreDefault (Some ?d) ?S = Inr s'" and
    r2: "map fst (calls s') = map fst (calls ?S) @
             concat (map (\<lambda>p. if strict_eq (restored_value ?S (fst p) (snd p))
                                            (Object_prototype_get (fst p)) then []
                               else map cb (filter (\<lambda>l. key l = fst p) [\<lparr>key = KStr ''count'', cb = 7\<rparr>]))
                         (filter (\<lambda>p. is_string_key (fst p)) (snd ?d)))"
    by blast
  have r3: "map fst (calls s') = [7]" using r2 c u by (simp add: restored_value_def)
  have "\<exists>s'. restoreDefault (Some ?d) ?S = Inr s' \<and> map fst (calls s') = [7]"
    using r1 r3 by (intro exI [of _ s']) simp
  with h1 h3 h4 show ?thesis by simp
qed




end
